theory Spec2Isabelle
  imports Main "HOL-Library.Word" "HOL-Library.Signed_Division"
begin

section \<open>Machine integers\<close>

text \<open>
  The program computes with \<open>int\<close>, taken here as 32 bits in two's complement. A value
  is a 32-bit word read through \<open>sint\<close>; comparisons are the signed ones. Arithmetic
  wraps around: this is what \<open>fetch_add\<close> on a \<open>std::atomic<int>\<close> is defined to do,
  and what the compiled code does for \<open>3 * n + 1\<close>, where the language itself leaves
  signed overflow undefined. Division and remainder truncate towards zero.
\<close>

type_synonym int32 = "32 word"

definition int_div :: "int32 \<Rightarrow> int32 \<Rightarrow> int32" where
  "int_div a b = word_of_int (sint a sdiv sint b)"

definition int_mod :: "int32 \<Rightarrow> int32 \<Rightarrow> int32" where
  "int_mod a b = word_of_int (sint a smod sint b)"

section \<open>The stopping-time function\<close>

text \<open>
  The \<open>while\<close> loop of \<open>compute_stopping_time\<close>, with its two variables \<open>n\<close> and
  \<open>steps\<close> as arguments, and the function itself, which enters the loop with
  \<open>steps = 0\<close>. The loop ends since \<open>steps\<close> grows by one in every round and stays
  below 1000.
\<close>

function compute_stopping_time_loop :: "int32 \<Rightarrow> int32 \<Rightarrow> int32" where
  "compute_stopping_time_loop n steps =
     (if n \<noteq> 1 \<and> steps <s 1000
      then compute_stopping_time_loop
             (if int_mod n 2 = 0 then int_div n 2 else 3 * n + 1) (steps + 1)
      else steps)"
  by pat_completeness auto

termination
proof (relation "measure (\<lambda>(n, steps). nat (1000 - sint steps))")
  show "wf (measure (\<lambda>(n :: int32, steps :: int32). nat (1000 - sint steps)))"
    by simp
next
  fix n steps :: int32
  assume "n \<noteq> 1 \<and> steps <s 1000"
  then have below: "sint steps < 1000"
    by (simp add: word_sless_alt)
  have "- (2 ^ 31) \<le> sint steps"
    using sint_ge [of steps] by simp
  with below have "signed_take_bit 31 (sint steps + 1) = sint steps + 1"
    by (intro signed_take_bit_int_eq_self) simp_all
  then have "sint (steps + 1) = sint steps + 1"
    by (simp add: sint_word_add)
  with below
  show "((if int_mod n 2 = 0 then int_div n 2 else 3 * n + 1, steps + 1), (n, steps))
          \<in> measure (\<lambda>(n, steps). nat (1000 - sint steps))"
    by simp
qed

declare compute_stopping_time_loop.simps [simp del]

definition compute_stopping_time :: "int32 \<Rightarrow> int32" where
  "compute_stopping_time n = compute_stopping_time_loop n 0"

text \<open>
  The same loop, counting its rounds: the number of times the body runs from a given
  \<open>n\<close> and \<open>steps\<close>.
\<close>

function loop_iterations :: "int32 \<Rightarrow> int32 \<Rightarrow> nat" where
  "loop_iterations n steps =
     (if n \<noteq> 1 \<and> steps <s 1000
      then Suc (loop_iterations
             (if int_mod n 2 = 0 then int_div n 2 else 3 * n + 1) (steps + 1))
      else 0)"
  by pat_completeness auto

termination
proof (relation "measure (\<lambda>(n, steps). nat (1000 - sint steps))")
  show "wf (measure (\<lambda>(n :: int32, steps :: int32). nat (1000 - sint steps)))"
    by simp
next
  fix n steps :: int32
  assume "n \<noteq> 1 \<and> steps <s 1000"
  then have below: "sint steps < 1000"
    by (simp add: word_sless_alt)
  have "- (2 ^ 31) \<le> sint steps"
    using sint_ge [of steps] by simp
  with below have "signed_take_bit 31 (sint steps + 1) = sint steps + 1"
    by (intro signed_take_bit_int_eq_self) simp_all
  then have "sint (steps + 1) = sint steps + 1"
    by (simp add: sint_word_add)
  with below
  show "((if int_mod n 2 = 0 then int_div n 2 else 3 * n + 1, steps + 1), (n, steps))
          \<in> measure (\<lambda>(n, steps). nat (1000 - sint steps))"
    by simp
qed

declare loop_iterations.simps [simp del]

section \<open>Shared state and the worker threads\<close>

text \<open>
  The globals of the program: the atomic work counter, the histogram and the mutex
  (with the index of the worker holding it, if any), together with the control point
  and the local variables of every worker thread.

  A worker executing \<open>collatz_worker\<close> is at one of these points, each of them just
  before an access to shared memory:
  \<^item> \<open>At_fetch\<close>: before \<open>COUNTER.fetch_add(1)\<close>;
  \<^item> \<open>At_lock stopping_time\<close>: before the constructor of the \<open>lock_guard\<close>, which
    acquires the mutex;
  \<^item> \<open>At_unlock stopping_time\<close>: at the closing brace of the \<open>if(use_locks)\<close> block,
    where the \<open>lock_guard\<close> goes out of scope and releases the mutex;
  \<^item> \<open>At_load stopping_time\<close>: before the read of \<open>histogram[stopping_time]\<close> in
    \<open>histogram[stopping_time]++\<close>;
  \<^item> \<open>At_store stopping_time v\<close>: after that read, which gave \<open>v\<close>, and before the
    write of \<open>v + 1\<close>;
  \<^item> \<open>Done\<close>: after the \<open>break\<close>;
  \<^item> \<open>Faulted\<close>: after an access outside the histogram.
\<close>

datatype pc =
    At_fetch
  | At_lock int32
  | At_unlock int32
  | At_load int32
  | At_store int32 int32
  | Done
  | Faulted

record state =
  COUNTER :: int32
  histogram :: "int32 list"
  mtx :: "nat option"
  workers :: "pc list"

text \<open>
  One step of worker \<open>i\<close>: the access to shared memory it stands before, followed by
  its thread-local computation up to the next access. The comparison with \<open>N\<close>, the
  call of \<open>compute_stopping_time\<close> and the test \<open>stopping_time <= 1000\<close> are local.
  There is no step (\<open>None\<close>) for a worker that has ended, for one that waits for the
  mutex while it is held, and for an index that is not a worker.
\<close>

definition set_pc :: "nat \<Rightarrow> pc \<Rightarrow> state \<Rightarrow> state" where
  "set_pc i p s = s\<lparr>workers := (workers s)[i := p]\<rparr>"

definition in_bounds :: "int32 list \<Rightarrow> int32 \<Rightarrow> bool" where
  "in_bounds h i = (0 \<le> sint i \<and> nat (sint i) < length h)"

definition update_guard :: "int32 \<Rightarrow> pc" where
  "update_guard stopping_time =
     (if stopping_time \<le>s 1000 then At_load stopping_time else At_fetch)"

definition step :: "int32 \<Rightarrow> bool \<Rightarrow> nat \<Rightarrow> state \<Rightarrow> state option" where
  "step N use_locks i s =
     (if i < length (workers s) then
        (case workers s ! i of
           At_fetch \<Rightarrow>
             (let num = COUNTER s;
                  s' = s\<lparr>COUNTER := COUNTER s + 1\<rparr>
              in if N <s num then Some (set_pc i Done s')
                 else
                   (let stopping_time = compute_stopping_time num
                    in Some (set_pc i
                         (if use_locks then At_lock stopping_time
                          else update_guard stopping_time) s')))
         | At_lock stopping_time \<Rightarrow>
             (case mtx s of
                None \<Rightarrow> Some (set_pc i (At_unlock stopping_time) (s\<lparr>mtx := Some i\<rparr>))
              | Some owner \<Rightarrow> None)
         | At_unlock stopping_time \<Rightarrow>
             Some (set_pc i (update_guard stopping_time) (s\<lparr>mtx := None\<rparr>))
         | At_load stopping_time \<Rightarrow>
             (if in_bounds (histogram s) stopping_time
              then Some (set_pc i
                     (At_store stopping_time (histogram s ! nat (sint stopping_time))) s)
              else Some (set_pc i Faulted s))
         | At_store stopping_time v \<Rightarrow>
             Some (set_pc i At_fetch
               (s\<lparr>histogram := (histogram s)[nat (sint stopping_time) := v + 1]\<rparr>))
         | Done \<Rightarrow> None
         | Faulted \<Rightarrow> None)
      else None)"

text \<open>
  A schedule is the list of the workers that take the successive steps. \<open>run\<close> gives
  the state after a schedule, and \<open>claims\<close> the values that the calls of \<open>fetch_add\<close>
  returned along it, in the order of the calls.
\<close>

fun run :: "int32 \<Rightarrow> bool \<Rightarrow> nat list \<Rightarrow> state \<Rightarrow> state option" where
  "run N use_locks [] s = Some s"
| "run N use_locks (i # sched) s =
     (case step N use_locks i s of
        None \<Rightarrow> None
      | Some s' \<Rightarrow> run N use_locks sched s')"

fun claims :: "int32 \<Rightarrow> bool \<Rightarrow> nat list \<Rightarrow> state \<Rightarrow> int32 list" where
  "claims N use_locks [] s = []"
| "claims N use_locks (i # sched) s =
     (case step N use_locks i s of
        None \<Rightarrow> []
      | Some s' \<Rightarrow>
          (if workers s ! i = At_fetch then [COUNTER s] else [])
          @ claims N use_locks sched s')"

text \<open>
  The state in which \<open>main\<close> starts its \<open>T\<close> threads (none when \<open>T\<close> is not positive),
  the end of all workers, which is what the joins wait for, and the sum of the histogram.
\<close>

definition init :: "int32 \<Rightarrow> state" where
  "init T = \<lparr>COUNTER = 1, histogram = replicate 1001 0, mtx = None,
             workers = replicate (nat (sint T)) At_fetch\<rparr>"

definition all_done :: "state \<Rightarrow> bool" where
  "all_done s = list_all (\<lambda>p. p = Done) (workers s)"

definition histogram_sum :: "state \<Rightarrow> int" where
  "histogram_sum s = sum_list (map sint (histogram s))"

section \<open>Command line\<close>

text \<open>
  The C library's \<open>atoi\<close>, which is \<open>(int) strtol(str, NULL, 10)\<close>: leading white
  space is skipped, an optional sign is read, then decimal digits up to the first
  character that is not one. With no digit the value is 0. \<open>strtol\<close> saturates at the
  ends of the range of \<open>long\<close>, 64 bits here, and the conversion to \<open>int\<close> keeps the
  low 32 bits.
\<close>

definition isspace :: "char \<Rightarrow> bool" where
  "isspace c = (of_char c \<in> set [32, 9, 10, 11, 12, 13 :: nat])"

definition isdigit :: "char \<Rightarrow> bool" where
  "isdigit c = (48 \<le> (of_char c :: nat) \<and> (of_char c :: nat) \<le> 57)"

fun digits_value :: "int \<Rightarrow> string \<Rightarrow> int" where
  "digits_value acc [] = acc"
| "digits_value acc (c # cs) =
     (if isdigit c then digits_value (10 * acc + (int (of_char c) - 48)) cs else acc)"

definition strtol :: "string \<Rightarrow> int" where
  "strtol str =
     (let v = (case dropWhile isspace str of
                 [] \<Rightarrow> 0
               | c # cs \<Rightarrow>
                   if c = CHR ''-'' then - digits_value 0 cs
                   else if c = CHR ''+'' then digits_value 0 cs
                   else digits_value 0 (c # cs))
      in if v < - 9223372036854775808 then - 9223372036854775808
         else if 9223372036854775807 < v then 9223372036854775807
         else v)"

definition atoi :: "string \<Rightarrow> int32" where
  "atoi str = word_of_int (strtol str)"

text \<open>
  What \<open>main\<close> does with its arguments: either the usage message and an exit status,
  or the launch of \<open>T\<close> workers over the range bound \<open>N\<close> in the chosen mode.
\<close>

datatype outcome =
    Usage_error int
  | Launch int32 int32 bool

definition main :: "string list \<Rightarrow> outcome" where
  "main argv =
     (if int (length argv) < 3 then Usage_error 1
      else
        (let N = atoi (argv ! 1);
             T = atoi (argv ! 2);
             use_locks = \<not> (length argv = 4 \<and> argv ! 3 = ''-nolock'')
         in Launch N T use_locks))"

section \<open>Reference notions of the specification\<close>

text \<open>
  The Collatz step on unbounded integers, the number of steps after which a start value
  first reaches 1 (searched up to a bound), and the capped stopping time.
\<close>

definition spec_collatz_step :: "int \<Rightarrow> int" where
  "spec_collatz_step n = (if even n then n div 2 else 3 * n + 1)"

fun spec_first_hit :: "nat \<Rightarrow> int \<Rightarrow> nat option" where
  "spec_first_hit 0 n = (if n = 1 then Some 0 else None)"
| "spec_first_hit (Suc k) n =
     (if n = 1 then Some 0 else map_option Suc (spec_first_hit k (spec_collatz_step n)))"

definition spec_stopping_time :: "int \<Rightarrow> int" where
  "spec_stopping_time n =
     (case spec_first_hit 1000 n of Some s \<Rightarrow> int s | None \<Rightarrow> 1000)"

text \<open>
  The first \<open>k\<close> Collatz steps from \<open>n\<close> (or those up to the first 1) produce only values
  that a 32-bit signed integer holds.
\<close>

fun spec_fits_int32 :: "nat \<Rightarrow> int \<Rightarrow> bool" where
  "spec_fits_int32 0 n = True"
| "spec_fits_int32 (Suc k) n =
     (n = 1 \<or> (spec_collatz_step n \<le> 2147483647
              \<and> spec_fits_int32 k (spec_collatz_step n)))"

text \<open>A command-line argument that is an optionally signed, non-empty run of digits.\<close>

definition spec_valid_integer :: "string \<Rightarrow> bool" where
  "spec_valid_integer str =
     (case str of
        [] \<Rightarrow> False
      | c # cs \<Rightarrow>
          if c = CHR ''-'' \<or> c = CHR ''+'' then cs \<noteq> [] \<and> list_all isdigit cs
          else list_all isdigit (c # cs))"

section \<open>Facts about 32-bit integers\<close>

lemma sint_succ_below:
  fixes x :: int32
  assumes "sint x < 2147483647"
  shows "sint (x + 1) = sint x + 1"
proof -
  have "- (2 ^ 31) \<le> sint x"
    using sint_ge [of x] by simp
  with assms have "signed_take_bit 31 (sint x + 1) = sint x + 1"
    by (intro signed_take_bit_int_eq_self) simp_all
  then show ?thesis
    by (simp add: sint_word_add)
qed

lemma sint_word_of_int32:
  assumes "- 2147483648 \<le> k" and "k \<le> 2147483647"
  shows "sint (word_of_int k :: int32) = k"
  using assms by (simp add: sint_sbintrunc' signed_take_bit_int_eq_self)

section \<open>The stopping-time loop\<close>

lemma loop_bounds:
  "0 \<le> sint steps \<Longrightarrow> sint steps \<le> 1000 \<Longrightarrow>
   0 \<le> sint (compute_stopping_time_loop n steps) \<and> sint (compute_stopping_time_loop n steps) \<le> 1000"
proof (induction n steps rule: compute_stopping_time_loop.induct)
  case (1 n steps)
  show ?case
  proof (cases "n \<noteq> 1 \<and> steps <s 1000")
    case True
    then have below: "sint steps < 1000"
      by (simp add: word_sless_alt)
    then have succ: "sint (steps + 1) = sint steps + 1"
      by (intro sint_succ_below) simp
    from "1.IH" [OF True] "1.prems" below succ True show ?thesis
      by (subst (1 2) compute_stopping_time_loop.simps) simp
  next
    case False
    with "1.prems" show ?thesis
      by (subst (1 2) compute_stopping_time_loop.simps) auto
  qed
qed

lemma loop_counts_iterations:
  "sint steps \<le> 1000 \<Longrightarrow>
   sint (compute_stopping_time_loop n steps) = sint steps + int (loop_iterations n steps)
   \<and> sint steps + int (loop_iterations n steps) \<le> 1000"
proof (induction n steps rule: compute_stopping_time_loop.induct)
  case (1 n steps)
  show ?case
  proof (cases "n \<noteq> 1 \<and> steps <s 1000")
    case True
    then have below: "sint steps < 1000"
      by (simp add: word_sless_alt)
    then have succ: "sint (steps + 1) = sint steps + 1"
      by (intro sint_succ_below) simp
    from "1.IH" [OF True] below succ True show ?thesis
      by (subst compute_stopping_time_loop.simps, subst (1 2) loop_iterations.simps) simp
  next
    case False
    with "1.prems" show ?thesis
      by (subst compute_stopping_time_loop.simps, subst (1 2) loop_iterations.simps) auto
  qed
qed

lemma loop_at_zero:
  "sint steps + int k = 1000 \<Longrightarrow> compute_stopping_time_loop 0 steps = 1000"
proof (induction k arbitrary: steps)
  case 0
  then have "sint steps = sint (1000 :: int32)"
    by simp
  then have "steps = 1000"
    by (rule signed_word_eqI)
  then show ?case
    by (subst compute_stopping_time_loop.simps) simp
next
  case (Suc k)
  then have below: "sint steps < 1000"
    by simp
  then have succ: "sint (steps + 1) = sint steps + 1"
    by (intro sint_succ_below) simp
  with Suc.prems have "sint (steps + 1) + int k = 1000"
    by simp
  then have "compute_stopping_time_loop 0 (steps + 1) = 1000"
    by (rule Suc.IH)
  with below show ?case
    by (subst compute_stopping_time_loop.simps)
      (simp add: word_sless_alt int_mod_def int_div_def)
qed

text \<open>
  C5: whatever its argument, \<open>compute_stopping_time\<close> returns a value between 0 and
  1000. The value is therefore a valid index into the 1001 entries of the histogram, and
  the test \<open>stopping_time <= 1000\<close> of the worker lets every processed input through to
  the update of the histogram.
\<close>

theorem stopping_time_in_histogram_range:
  "0 \<le> sint (compute_stopping_time n) \<and> sint (compute_stopping_time n) \<le> 1000
   \<and> in_bounds (histogram (init T)) (compute_stopping_time n)
   \<and> update_guard (compute_stopping_time n) = At_load (compute_stopping_time n)"
proof -
  have b: "0 \<le> sint (compute_stopping_time n) \<and> sint (compute_stopping_time n) \<le> 1000"
    unfolding compute_stopping_time_def by (rule loop_bounds) simp_all
  then show ?thesis
    by (simp add: in_bounds_def init_def update_guard_def word_sle_eq) arith
qed

text \<open>
  C10: \<open>compute_stopping_time\<close> is total. For every 32-bit argument, zero and the negative
  ones included, the loop body runs at most 1000 times, the value returned is the number
  of times it ran and lies between 0 and 1000, and the result for 0 is 1000.
\<close>

theorem compute_stopping_time_total:
  "loop_iterations n 0 \<le> 1000
   \<and> sint (compute_stopping_time n) = int (loop_iterations n 0)
   \<and> 0 \<le> sint (compute_stopping_time n) \<and> sint (compute_stopping_time n) \<le> 1000
   \<and> compute_stopping_time 0 = 1000"
proof -
  have "sint (compute_stopping_time_loop n 0) = sint (0 :: int32) + int (loop_iterations n 0)
      \<and> sint (0 :: int32) + int (loop_iterations n 0) \<le> 1000"
    by (rule loop_counts_iterations) simp
  moreover have "compute_stopping_time_loop 0 0 = 1000"
    by (rule loop_at_zero [where k = 1000]) simp
  ultimately show ?thesis
    by (simp add: compute_stopping_time_def)
qed


section \<open>Agreement with the reference stopping time\<close>

lemma loop_body_int:
  assumes "2 \<le> n" and "n \<le> 2147483647" and "spec_collatz_step n \<le> 2147483647"
  shows "(if int_mod (word_of_int n) 2 = 0 then int_div (word_of_int n) 2
          else 3 * word_of_int n + 1) = (word_of_int (spec_collatz_step n) :: int32)"
proof -
  have sn: "sint (word_of_int n :: int32) = n"
    using assms by (intro sint_word_of_int32) simp_all
  have two: "sint (2 :: int32) = 2"
    by simp
  have m: "n smod 2 = n mod 2"
    using assms by (simp add: signed_modulo_int_def sgn_if)
  have d: "n sdiv 2 = n div 2"
    using assms by (simp add: signed_divide_int_def sgn_if)
  have "n mod 2 = 0 \<or> n mod 2 = 1"
    by presburger
  then have z: "(word_of_int (n mod 2) :: int32) = 0 \<longleftrightarrow> even n"
    by (auto simp: even_iff_mod_2_eq_zero)
  show ?thesis
    unfolding int_mod_def int_div_def sn two m d z spec_collatz_step_def
    by simp
qed

lemma spec_collatz_step_pos: "1 \<le> n \<Longrightarrow> 1 \<le> spec_collatz_step n"
  unfolding spec_collatz_step_def by (cases "n = 1") (auto elim: evenE)

lemma loop_exact:
  "1 \<le> n \<Longrightarrow> n \<le> 2147483647 \<Longrightarrow> spec_fits_int32 k n \<Longrightarrow>
   sint steps + int k = 1000 \<Longrightarrow>
   sint (compute_stopping_time_loop (word_of_int n) steps)
     = (case spec_first_hit k n of Some s \<Rightarrow> sint steps + int s | None \<Rightarrow> 1000)"
proof (induction k arbitrary: n steps)
  case 0
  then have "\<not> steps <s 1000"
    by (simp add: word_sless_alt)
  with 0 show ?case
    by (subst compute_stopping_time_loop.simps) simp
next
  case (Suc k)
  show ?case
  proof (cases "n = 1")
    case True
    then show ?thesis
      by (subst compute_stopping_time_loop.simps) simp
  next
    case False
    with Suc.prems have n2: "2 \<le> n"
      by simp
    from False Suc.prems have fit: "spec_collatz_step n \<le> 2147483647"
      and rest: "spec_fits_int32 k (spec_collatz_step n)"
      by simp_all
    have sn: "sint (word_of_int n :: int32) = n"
      using Suc.prems by (intro sint_word_of_int32) simp_all
    have ne: "(word_of_int n :: int32) \<noteq> 1"
    proof
      assume "(word_of_int n :: int32) = 1"
      then have "sint (word_of_int n :: int32) = sint (1 :: int32)"
        by simp
      with sn False show False
        by simp
    qed
    from Suc.prems have below: "sint steps < 1000"
      by simp
    then have succ: "sint (steps + 1) = sint steps + 1"
      by (intro sint_succ_below) simp
    have IH: "sint (compute_stopping_time_loop (word_of_int (spec_collatz_step n)) (steps + 1))
        = (case spec_first_hit k (spec_collatz_step n) of
             Some s \<Rightarrow> sint (steps + 1) + int s | None \<Rightarrow> 1000)"
      using Suc.prems succ
      by (intro Suc.IH spec_collatz_step_pos fit rest) simp_all
    have "compute_stopping_time_loop (word_of_int n) steps
        = compute_stopping_time_loop (word_of_int (spec_collatz_step n)) (steps + 1)"
      using ne below loop_body_int [OF n2 _ fit] Suc.prems(2)
      by (subst compute_stopping_time_loop.simps) (simp add: word_sless_alt)
    with IH succ False show ?thesis
      by (simp split: option.splits)
  qed
qed

lemma spec_first_hit_iff:
  "spec_first_hit k n = Some m \<longleftrightarrow>
     m \<le> k \<and> (spec_collatz_step ^^ m) n = 1 \<and> (\<forall>j < m. (spec_collatz_step ^^ j) n \<noteq> 1)"
proof (induction k arbitrary: n m)
  case 0
  then show ?case by auto
next
  case (Suc k)
  show ?case
  proof (cases "n = 1")
    case True
    then show ?thesis by auto
  next
    case False
    show ?thesis
    proof (cases m)
      case 0
      with False show ?thesis by auto
    next
      case (Suc m')
      have "(\<forall>j < Suc m'. (spec_collatz_step ^^ j) n \<noteq> 1)
          \<longleftrightarrow> (\<forall>j < m'. (spec_collatz_step ^^ j) (spec_collatz_step n) \<noteq> 1)"
        using False by (auto simp: less_Suc_eq_0_disj funpow_swap1)
      with False Suc Suc.IH [of "spec_collatz_step n" m'] show ?thesis
        by (auto simp: funpow_swap1)
    qed
  qed
qed

text \<open>
  Where the code agrees with the reference: for a start value \<open>n \<ge> 1\<close> whose Collatz
  values, over the first 1000 steps or up to the first 1, all fit a 32-bit signed
  integer, \<open>compute_stopping_time\<close> returns the capped stopping time, and 0 for 1.
\<close>

lemma compute_stopping_time_exact:
  assumes "1 \<le> n" and "n \<le> 2147483647" and "spec_fits_int32 1000 n"
  shows "sint (compute_stopping_time (word_of_int n)) = spec_stopping_time n
         \<and> compute_stopping_time 1 = 0"
proof -
  have "sint (compute_stopping_time_loop (word_of_int n) 0)
      = (case spec_first_hit 1000 n of Some s \<Rightarrow> sint (0 :: int32) + int s | None \<Rightarrow> 1000)"
    using assms by (intro loop_exact) simp_all
  moreover have "compute_stopping_time_loop 1 0 = 0"
    by (subst compute_stopping_time_loop.simps) simp
  ultimately show ?thesis
    by (simp add: compute_stopping_time_def spec_stopping_time_def split: option.splits)
qed

lemma compute_stopping_time_exact_at_27:
  "(1 :: int) \<le> 27 \<and> (27 :: int) \<le> 2147483647 \<and> spec_fits_int32 1000 27
   \<and> sint (compute_stopping_time 27) = 111 \<and> spec_stopping_time 27 = 111"
proof -
  have fits: "spec_fits_int32 1000 27"
    by code_simp
  have ref: "spec_stopping_time 27 = 111"
    by code_simp
  from compute_stopping_time_exact [of 27, OF _ _ fits] ref show ?thesis
    using fits by simp
qed

text \<open>
  C3: \<open>compute_stopping_time\<close> does not return the stopping time of every \<open>n \<ge> 1\<close>.
  From 113383 the Collatz values reach 2482111348 after 120 steps, which no 32-bit
  \<open>int\<close> holds; \<open>3 * n + 1\<close> overflows, the value turns negative, and the loop runs to
  the cap and returns 1000, although 113383 first reaches 1 after 247 steps.
\<close>

theorem compute_stopping_time_overflow:
  "compute_stopping_time 113383 = 1000 \<and> spec_stopping_time 113383 = 247"
proof -
  have "compute_stopping_time 113383 = 1000"
    by (simp add: compute_stopping_time_def compute_stopping_time_loop.simps
        int_mod_def int_div_def word_sless_alt)
  moreover have "spec_stopping_time 113383 = 247"
    by code_simp
  ultimately show ?thesis
    by (rule conjI)
qed

section \<open>The command line\<close>

text \<open>
  C9: \<open>main\<close> reports the usage error, with exit status 1, exactly when fewer than two
  arguments follow the program name. With two or more it launches the computation with
  whatever \<open>atoi\<close> reads from the first two, and in unsynchronized mode exactly when
  there are three arguments and the third is \<open>-nolock\<close>.
\<close>

theorem main_usage:
  "(main argv = Usage_error 1 \<longleftrightarrow> length argv < 3)
   \<and> (3 \<le> length argv \<longrightarrow>
        main argv = Launch (atoi (argv ! 1)) (atoi (argv ! 2))
                      (\<not> (length argv = 4 \<and> argv ! 3 = ''-nolock'')))"
  by (simp add: main_def Let_def)

theorem main_usage_witness:
  "main [''./mt-collatz'', ''10''] = Usage_error 1
   \<and> main [''./mt-collatz'', ''10'', ''4''] = Launch 10 4 True
   \<and> main [''./mt-collatz'', ''10x'', ''four'', ''-nolock''] = Launch 10 0 False"
proof -
  have a: "atoi ''10'' = 10" "atoi ''4'' = 4" "atoi ''10x'' = 10" "atoi ''four'' = 0"
    by code_simp+
  show ?thesis
    using main_usage [of "[''./mt-collatz'', ''10'']"]
      main_usage [of "[''./mt-collatz'', ''10'', ''4'']"]
      main_usage [of "[''./mt-collatz'', ''10x'', ''four'', ''-nolock'']"] a
    by simp
qed

text \<open>
  An argument that is not an integer is not rejected: \<open>abc\<close> is read as 0 and the
  computation is launched.
\<close>

lemma atoi_saturates:
  "atoi ''99999999999999999999'' = - 1 \<and> atoi '' -12x'' = - 12 \<and> atoi ''+7'' = 7"
  by code_simp

theorem usage_counterexample:
  "\<not> spec_valid_integer ''abc'' \<and> main [''./mt-collatz'', ''abc'', ''2''] = Launch 0 2 True"
  by code_simp

section \<open>The histogram update and the mutex\<close>

text \<open>
  C1: in synchronized mode the mutex is released at the end of the block of the
  \<open>if(use_locks)\<close> statement, before the histogram is touched. In the run below
  (\<open>N = 13\<close>, two workers, worker 0 alone up to 11) both workers stand between the read
  and the write of \<open>histogram[9]\<close> at the same time, each having read 0, while nobody
  holds the mutex.
\<close>

theorem increments_interleave:
  "map_option workers (run 13 True (replicate 55 0 @ [0, 0, 0, 0] @ [1, 1, 1, 1]) (init 2))
     = Some [At_store 9 0, At_store 9 0]
   \<and> map_option mtx (run 13 True (replicate 55 0 @ [0, 0, 0, 0] @ [1, 1, 1, 1]) (init 2))
     = Some None"
  by code_simp

text \<open>
  C2: the same run, carried to its end. Both workers write 1 into \<open>histogram[9]\<close>, one
  update is lost, and the entries of the histogram sum to 12 although 13 inputs were
  processed in synchronized mode.
\<close>

theorem lost_update:
  "map_option workers
     (run 13 True (replicate 55 0 @ [0, 0, 0, 0] @ [1, 1, 1, 1, 1, 1] @ [0, 0]) (init 2))
     = Some [Done, Done]
   \<and> map_option histogram_sum
     (run 13 True (replicate 55 0 @ [0, 0, 0, 0] @ [1, 1, 1, 1, 1, 1] @ [0, 0]) (init 2))
     = Some 12"
  by code_simp

section \<open>Steps and runs\<close>

lemma step_SomeD:
  assumes "step N ul i s = Some s'"
  shows "i < length (workers s)" and "workers s ! i \<noteq> Done" and "workers s ! i \<noteq> Faulted"
    and "length (workers s') = length (workers s)"
    and "\<And>j. j \<noteq> i \<Longrightarrow> workers s' ! j = workers s ! j"
  using assms
  by (auto simp: step_def set_pc_def Let_def split: if_splits pc.splits option.splits)

lemma run_append:
  "run N ul (xs @ ys) s = (case run N ul xs s of None \<Rightarrow> None | Some s' \<Rightarrow> run N ul ys s')"
  by (induction xs arbitrary: s) (auto split: option.splits)

lemma claims_append:
  "run N ul xs s = Some s' \<Longrightarrow>
   claims N ul (xs @ ys) s = claims N ul xs s @ claims N ul ys s'"
  by (induction xs arbitrary: s) (auto split: option.splits)

lemma run_Done_stays:
  "run N ul sched s = Some s' \<Longrightarrow> i < length (workers s) \<Longrightarrow> workers s ! i = Done \<Longrightarrow>
   i \<notin> set sched \<and> workers s' ! i = Done"
proof (induction sched arbitrary: s)
  case Nil
  then show ?case by simp
next
  case (Cons j sched)
  from Cons.prems(1) obtain t where st: "step N ul j s = Some t"
    and rest: "run N ul sched t = Some s'"
    by (auto split: option.splits)
  from step_SomeD(2) [OF st] Cons.prems(3) have ne: "j \<noteq> i"
    by auto
  with step_SomeD(4,5) [OF st] Cons.prems have "i < length (workers t)" "workers t ! i = Done"
    by auto
  with Cons.IH [OF rest] ne show ?case
    by auto
qed

text \<open>
  C6: a worker whose claim returns a value greater than \<open>N\<close> goes straight to its end:
  the step only increments the counter and ends the worker, the histogram is untouched,
  and in whatever way the run continues that worker takes no further step and stays ended.
\<close>

theorem out_of_range_claim_ends_worker:
  assumes "i < length (workers s)" and "workers s ! i = At_fetch" and "N <s COUNTER s"
    and "run N ul sched (set_pc i Done (s\<lparr>COUNTER := COUNTER s + 1\<rparr>)) = Some s'"
  shows "step N ul i s = Some (set_pc i Done (s\<lparr>COUNTER := COUNTER s + 1\<rparr>))
         \<and> histogram (set_pc i Done (s\<lparr>COUNTER := COUNTER s + 1\<rparr>)) = histogram s
         \<and> i \<notin> set sched \<and> workers s' ! i = Done"
proof -
  have "workers (set_pc i Done (s\<lparr>COUNTER := COUNTER s + 1\<rparr>)) ! i = Done"
    and "i < length (workers (set_pc i Done (s\<lparr>COUNTER := COUNTER s + 1\<rparr>)))"
    using assms(1) by (simp_all add: set_pc_def)
  with run_Done_stays [OF assms(4)] have "i \<notin> set sched \<and> workers s' ! i = Done"
    by simp
  with assms(1-3) show ?thesis
    by (simp add: step_def set_pc_def)
qed

theorem out_of_range_claim_ends_worker_witness:
  "0 < length (workers (init 2\<lparr>COUNTER := 11\<rparr>))
   \<and> workers (init 2\<lparr>COUNTER := 11\<rparr>) ! 0 = At_fetch
   \<and> 10 <s COUNTER (init 2\<lparr>COUNTER := 11\<rparr>)
   \<and> run 10 True [1] (set_pc 0 Done (init 2\<lparr>COUNTER := 12\<rparr>))
       = Some \<lparr>COUNTER = 13, histogram = replicate 1001 0, mtx = None,
               workers = [Done, Done]\<rparr>
   \<and> step 10 True 0 (init 2\<lparr>COUNTER := 11\<rparr>)
       = Some (set_pc 0 Done (init 2\<lparr>COUNTER := 12\<rparr>))
   \<and> 0 \<notin> set [1 :: nat]
   \<and> workers \<lparr>COUNTER = 13, histogram = replicate 1001 0, mtx = None,
               workers = [Done, Done]\<rparr> ! 0 = Done"
proof -
  let ?s = "init 2\<lparr>COUNTER := 11\<rparr>"
  let ?s' = "\<lparr>COUNTER = 13, histogram = replicate 1001 0, mtx = None, workers = [Done, Done]\<rparr>"
  have 1: "0 < length (workers ?s)"
    by (simp add: init_def)
  have 2: "workers ?s ! 0 = At_fetch"
    by (simp add: init_def)
  have 3: "10 <s COUNTER ?s"
    by simp
  have 4: "run 10 True [1] (set_pc 0 Done (?s\<lparr>COUNTER := COUNTER ?s + 1\<rparr>)) = Some ?s'"
    by code_simp
  from out_of_range_claim_ends_worker [OF 1 2 3 4] 1 2 3 4 show ?thesis
    by simp
qed

section \<open>The run over 1..10 with one worker\<close>

lemma single_worker_schedule:
  "run N ul sched s = Some s' \<Longrightarrow> length (workers s) = 1 \<Longrightarrow>
   sched = replicate (length sched) 0"
proof (induction sched arbitrary: s)
  case Nil
  then show ?case by simp
next
  case (Cons j sched)
  from Cons.prems(1) obtain t where st: "step N ul j s = Some t"
    and rest: "run N ul sched t = Some s'"
    by (auto split: option.splits)
  from step_SomeD(1,4) [OF st] Cons.prems(2) have "j = 0" "length (workers t) = 1"
    by auto
  with Cons.IH [OF rest] show ?case
    by simp
qed

lemma run_length_workers:
  "run N ul sched s = Some s' \<Longrightarrow> length (workers s') = length (workers s)"
proof (induction sched arbitrary: s)
  case Nil
  then show ?case by simp
next
  case (Cons j sched)
  from Cons.prems(1) obtain t where st: "step N ul j s = Some t"
    and rest: "run N ul sched t = Some s'"
    by (auto split: option.splits)
  from Cons.IH [OF rest] step_SomeD(4) [OF st] show ?case
    by simp
qed

lemma single_worker_unique_end:
  assumes full: "run N ul (replicate m 0) s0 = Some F" and fin: "workers F = [Done]"
    and one: "length (workers s0) = 1"
    and r: "run N ul sched s0 = Some s" and d: "all_done s"
  shows "sched = replicate m 0 \<and> s = F"
proof -
  define k where "k = length sched"
  have sched: "sched = replicate k 0"
    unfolding k_def using r one by (rule single_worker_schedule)
  have ws: "workers s = [Done]"
  proof -
    have "length (workers s) = 1"
      using run_length_workers [OF r] one by simp
    then obtain p where "workers s = [p]"
      by (cases "workers s") auto
    with d show ?thesis
      by (simp add: all_done_def)
  qed
  have "k = m"
  proof (rule ccontr)
    assume "k \<noteq> m"
    then consider "k < m" | "m < k"
      by linarith
    then show False
    proof cases
      case 1
      then obtain j where "m = Suc (k + j)"
        by (auto dest: less_imp_Suc_add)
      then have m: "m = k + Suc j"
        by simp
      have "run N ul (replicate k 0 @ replicate (Suc j) 0) s0 = Some F"
        using full unfolding m replicate_add by simp
      with r sched have "run N ul (replicate (Suc j) 0) s = Some F"
        by (simp add: run_append del: replicate_Suc)
      then obtain t where "step N ul 0 s = Some t"
        by (auto split: option.splits)
      from step_SomeD(2) [OF this] ws show False
        by simp
    next
      case 2
      then obtain j where "k = Suc (m + j)"
        by (auto dest: less_imp_Suc_add)
      then have k: "k = m + Suc j"
        by simp
      have "run N ul (replicate m 0 @ replicate (Suc j) 0) s0 = Some s"
        using r sched unfolding k replicate_add by simp
      with full have "run N ul (replicate (Suc j) 0) F = Some s"
        by (simp add: run_append del: replicate_Suc)
      then obtain t where "step N ul 0 F = Some t"
        by (auto split: option.splits)
      from step_SomeD(2) [OF this] fin show False
        by simp
    qed
  qed
  with sched r full show ?thesis
    by simp
qed

lemma run_10_1_trace:
  "run 10 True (replicate 51 0) (init 1)
     = Some \<lparr>COUNTER = 12,
             histogram = (replicate 1001 0)
               [0 := 1, 1 := 1, 2 := 1, 3 := 1, 5 := 1, 6 := 1, 7 := 1, 8 := 1, 16 := 1, 19 := 1],
             mtx = None, workers = [Done]\<rparr>"
  by code_simp

lemma stopping_times_1_to_10:
  "map compute_stopping_time [1, 2, 3, 4, 5, 6, 7, 8, 9, 10] = [0, 1, 7, 2, 5, 8, 16, 3, 19, 6]"
  by code_simp

lemma histogram_10_sum:
  "sum_list (map sint ((replicate 1001 (0 :: int32))
     [0 := 1, 1 := 1, 2 := 1, 3 := 1, 5 := 1, 6 := 1, 7 := 1, 8 := 1, 16 := 1, 19 := 1])) = 10"
  by code_simp

lemma histogram_10_entries:
  assumes "i < 1001"
  shows "(replicate 1001 (0 :: int32))
     [0 := 1, 1 := 1, 2 := 1, 3 := 1, 5 := 1, 6 := 1, 7 := 1, 8 := 1, 16 := 1, 19 := 1] ! i
     = (if i \<in> {0, 1, 2, 3, 5, 6, 7, 8, 16, 19} then 1 else 0)"
  using assms by (simp add: nth_list_update)

text \<open>
  C7: the stopping times of 1 to 10 are 0, 1, 7, 2, 5, 8, 16, 3, 19, 6. With \<open>N = 10\<close>, one
  worker and synchronized mode there is one complete run, of 51 steps; at its end the
  histogram holds 1 at the indices 0, 1, 2, 3, 5, 6, 7, 8, 16 and 19, 0 at every other
  index up to 1000, and its entries sum to 10.
\<close>

theorem full_run_10_1:
  assumes "run 10 True sched (init 1) = Some s" and "all_done s"
  shows "map compute_stopping_time [1, 2, 3, 4, 5, 6, 7, 8, 9, 10]
           = [0, 1, 7, 2, 5, 8, 16, 3, 19, 6]
         \<and> sched = replicate 51 0
         \<and> length (histogram s) = 1001
         \<and> (\<forall>i < 1001. histogram s ! i
               = (if i \<in> {0, 1, 2, 3, 5, 6, 7, 8, 16, 19} then 1 else 0))
         \<and> histogram_sum s = 10"
proof -
  define H :: "int32 list" where "H = (replicate 1001 0)
    [0 := 1, 1 := 1, 2 := 1, 3 := 1, 5 := 1, 6 := 1, 7 := 1, 8 := 1, 16 := 1, 19 := 1]"
  have full: "run 10 True (replicate 51 0) (init 1)
      = Some \<lparr>COUNTER = 12, histogram = H, mtx = None, workers = [Done]\<rparr>"
    unfolding H_def by (rule run_10_1_trace)
  have "sched = replicate 51 0
      \<and> s = \<lparr>COUNTER = 12, histogram = H, mtx = None, workers = [Done]\<rparr>"
    using full _ _ assms by (rule single_worker_unique_end) (simp_all add: init_def)
  then have e: "sched = replicate 51 0" and h: "histogram s = H"
    by simp_all
  have len: "length H = 1001"
    by (simp add: H_def)
  have entries: "\<forall>i < 1001. H ! i = (if i \<in> {0, 1, 2, 3, 5, 6, 7, 8, 16, 19} then 1 else 0)"
    unfolding H_def using histogram_10_entries by blast
  have "sum_list (map sint H) = 10"
    unfolding H_def by (rule histogram_10_sum)
  with h have hs: "histogram_sum s = 10"
    by (simp add: histogram_sum_def)
  from stopping_times_1_to_10 e len entries hs show ?thesis
    unfolding h by blast
qed

theorem full_run_10_1_witness:
  "run 10 True (replicate 51 0) (init 1)
     = Some \<lparr>COUNTER = 12,
             histogram = (replicate 1001 0)
               [0 := 1, 1 := 1, 2 := 1, 3 := 1, 5 := 1, 6 := 1, 7 := 1, 8 := 1, 16 := 1, 19 := 1],
             mtx = None, workers = [Done]\<rparr>
   \<and> all_done \<lparr>COUNTER = 12,
             histogram = (replicate 1001 0)
               [0 := 1, 1 := 1, 2 := 1, 3 := 1, 5 := 1, 6 := 1, 7 := 1, 8 := 1, 16 := 1, 19 := 1],
             mtx = None, workers = [Done]\<rparr>
   \<and> (7 :: nat) < 1001 \<and> (4 :: nat) < 1001
   \<and> histogram \<lparr>COUNTER = 12,
             histogram = (replicate 1001 0)
               [0 := 1, 1 := 1, 2 := 1, 3 := 1, 5 := 1, 6 := 1, 7 := 1, 8 := 1, 16 := 1, 19 := 1],
             mtx = None, workers = [Done]\<rparr> ! 7 = 1
   \<and> histogram \<lparr>COUNTER = 12,
             histogram = (replicate 1001 0)
               [0 := 1, 1 := 1, 2 := 1, 3 := 1, 5 := 1, 6 := 1, 7 := 1, 8 := 1, 16 := 1, 19 := 1],
             mtx = None, workers = [Done]\<rparr> ! 4 = 0
   \<and> histogram_sum \<lparr>COUNTER = 12,
             histogram = (replicate 1001 0)
               [0 := 1, 1 := 1, 2 := 1, 3 := 1, 5 := 1, 6 := 1, 7 := 1, 8 := 1, 16 := 1, 19 := 1],
             mtx = None, workers = [Done]\<rparr> = 10"
proof -
  define F where "F = \<lparr>COUNTER = 12,
             histogram = (replicate 1001 (0 :: int32))
               [0 := 1, 1 := 1, 2 := 1, 3 := 1, 5 := 1, 6 := 1, 7 := 1, 8 := 1, 16 := 1, 19 := 1],
             mtx = None :: nat option, workers = [Done]\<rparr>"
  have full: "run 10 True (replicate 51 0) (init 1) = Some F"
    unfolding F_def by (rule run_10_1_trace)
  have d: "all_done F"
    by (simp add: all_done_def F_def)
  note concl = full_run_10_1 [OF full d]
  from concl have "\<forall>i < 1001. histogram F ! i
      = (if i \<in> {0, 1, 2, 3, 5, 6, 7, 8, 16, 19} then 1 else 0)"
    by blast
  then have "histogram F ! 7 = 1" and "histogram F ! 4 = 0"
    by simp_all
  moreover from concl have "histogram_sum F = 10"
    by blast
  moreover have "(7 :: nat) < 1001 \<and> (4 :: nat) < 1001"
    by simp
  ultimately show ?thesis
    using full d unfolding F_def by blast
qed


section \<open>The empty range\<close>

lemma sint_of_nat32:
  assumes "n \<le> 2147483647"
  shows "sint (of_nat n :: int32) = int n"
proof -
  have "sint (word_of_int (int n) :: int32) = int n"
    using assms by (intro sint_word_of_int32) simp_all
  then show ?thesis
    by simp
qed

lemma count_list_update_new:
  "i < length ws \<Longrightarrow> ws ! i \<noteq> x \<Longrightarrow> count_list (ws[i := x]) x = Suc (count_list ws x)"
proof (induction ws arbitrary: i)
  case Nil
  then show ?case by simp
next
  case (Cons w ws)
  then show ?case by (cases i) auto
qed

lemma count_list_less_length:
  "i < length ws \<Longrightarrow> ws ! i \<noteq> x \<Longrightarrow> count_list ws x < length ws"
proof (induction ws arbitrary: i)
  case Nil
  then show ?case by simp
next
  case (Cons w ws)
  show ?case
  proof (cases i)
    case 0
    with Cons.prems have "w \<noteq> x" by simp
    moreover have "count_list ws x \<le> length ws"
      by (rule count_le_length)
    ultimately show ?thesis by simp
  next
    case (Suc j)
    with Cons.prems Cons.IH [of j] show ?thesis by auto
  qed
qed

lemma empty_range_step:
  assumes N: "sint N < 1" and st: "step N ul i s = Some s'"
    and c: "COUNTER s = of_nat (Suc (count_list (workers s) Done))"
    and w: "\<forall>p \<in> set (workers s). p = At_fetch \<or> p = Done"
    and l: "length (workers s) \<le> 2147483647"
  shows "workers s ! i = At_fetch" and "N <s COUNTER s"
    and "s' = set_pc i Done (s\<lparr>COUNTER := COUNTER s + 1\<rparr>)"
    and "COUNTER s' = of_nat (Suc (count_list (workers s') Done))"
    and "\<forall>p \<in> set (workers s'). p = At_fetch \<or> p = Done"
proof -
  from step_SomeD [OF st] have i: "i < length (workers s)" and nd: "workers s ! i \<noteq> Done"
    by simp_all
  with w show f: "workers s ! i = At_fetch"
    by (metis nth_mem)
  from count_list_less_length [OF i nd] l
  have "Suc (count_list (workers s) Done) \<le> 2147483647"
    by simp
  then have "sint (COUNTER s) = int (Suc (count_list (workers s) Done))"
    unfolding c by (rule sint_of_nat32)
  with N show gt: "N <s COUNTER s"
    by (simp add: word_sless_alt)
  with st i f show s': "s' = set_pc i Done (s\<lparr>COUNTER := COUNTER s + 1\<rparr>)"
    by (simp add: step_def)
  have ws': "workers s' = (workers s)[i := Done]"
    unfolding s' by (simp add: set_pc_def)
  show "COUNTER s' = of_nat (Suc (count_list (workers s') Done))"
    unfolding ws' count_list_update_new [OF i nd] unfolding s'
    by (simp add: set_pc_def c)
  show "\<forall>p \<in> set (workers s'). p = At_fetch \<or> p = Done"
    unfolding ws' using w set_update_subset_insert [of "workers s" i Done] by auto
qed

lemma empty_range_run:
  assumes "sint N < 1"
  shows "run N ul sched s = Some s' \<Longrightarrow>
    COUNTER s = of_nat (Suc (count_list (workers s) Done)) \<Longrightarrow>
    \<forall>p \<in> set (workers s). p = At_fetch \<or> p = Done \<Longrightarrow>
    length (workers s) \<le> 2147483647 \<Longrightarrow>
    histogram s' = histogram s
    \<and> (\<forall>c \<in> set (claims N ul sched s). N <s c)
    \<and> (\<forall>p \<in> set (workers s'). p = At_fetch \<or> p = Done)"
proof (induction sched arbitrary: s)
  case Nil
  then show ?case by simp
next
  case (Cons i sched)
  from Cons.prems(1) obtain t where st: "step N ul i s = Some t"
    and rest: "run N ul sched t = Some s'"
    by (auto split: option.splits)
  note facts = empty_range_step [OF assms st Cons.prems(2-4)]
  have "length (workers t) \<le> 2147483647"
    using step_SomeD(4) [OF st] Cons.prems(4) by simp
  from Cons.IH [OF rest facts(4,5) this]
  have "histogram s' = histogram t"
    and "\<forall>c \<in> set (claims N ul sched t). N <s c"
    and "\<forall>p \<in> set (workers s'). p = At_fetch \<or> p = Done"
    by simp_all
  moreover have "histogram t = histogram s"
    unfolding facts(3) by (simp add: set_pc_def)
  ultimately show ?case
    using st facts(1,2) by simp
qed

text \<open>
  C8: with \<open>N < 1\<close> no input is processed, whatever the number of workers, the mode and
  the schedule: every claim returns a value greater than \<open>N\<close>, every worker is either
  still before its first claim or ended, the histogram is all zeros and sums to 0.
\<close>

theorem empty_range:
  assumes "sint N < 1" and "run N ul sched (init T) = Some s"
  shows "histogram s = replicate 1001 0 \<and> histogram_sum s = 0
         \<and> (\<forall>c \<in> set (claims N ul sched (init T)). N <s c)
         \<and> (\<forall>p \<in> set (workers s). p = At_fetch \<or> p = Done)"
proof -
  have "sint T < 2 ^ 31"
    using sint_lt [of T] by simp
  then have "length (workers (init T)) \<le> 2147483647"
    by (simp add: init_def)
  moreover have "COUNTER (init T) = of_nat (Suc (count_list (workers (init T)) Done))"
    by (simp add: init_def count_list_0_iff)
  moreover have "\<forall>p \<in> set (workers (init T)). p = At_fetch \<or> p = Done"
    by (simp add: init_def)
  ultimately have "histogram s = histogram (init T)
    \<and> (\<forall>c \<in> set (claims N ul sched (init T)). N <s c)
    \<and> (\<forall>p \<in> set (workers s). p = At_fetch \<or> p = Done)"
    using empty_range_run [OF assms] by blast
  then show ?thesis
    by (simp add: init_def histogram_sum_def sum_list_replicate)
qed

theorem empty_range_witness:
  "sint (0 :: int32) < 1
   \<and> run 0 True [2, 0, 1] (init 3)
       = Some \<lparr>COUNTER = 4, histogram = replicate 1001 0, mtx = None,
               workers = [Done, Done, Done]\<rparr>
   \<and> claims 0 True [2, 0, 1] (init 3) = [1, 2, 3]
   \<and> all_done \<lparr>COUNTER = 4, histogram = replicate 1001 0, mtx = None,
               workers = [Done, Done, Done]\<rparr>
   \<and> histogram_sum \<lparr>COUNTER = 4, histogram = replicate 1001 0, mtx = None,
               workers = [Done, Done, Done]\<rparr> = 0"
proof -
  have n: "sint (0 :: int32) < 1"
    by simp
  have r: "run 0 True [2, 0, 1] (init 3)
       = Some \<lparr>COUNTER = 4, histogram = replicate 1001 0, mtx = None,
               workers = [Done, Done, Done]\<rparr>"
    by code_simp
  have c: "claims 0 True [2, 0, 1] (init 3) = [1, 2, 3]"
    by code_simp
  have d: "all_done \<lparr>COUNTER = 4, histogram = replicate 1001 0, mtx = None,
               workers = [Done, Done, Done]\<rparr>"
    by (simp add: all_done_def)
  from empty_range [OF n r] n r c d show ?thesis
    by simp
qed

section \<open>The work counter\<close>

lemma count_list_update_other:
  "i < length ws \<Longrightarrow> ws ! i \<noteq> x \<Longrightarrow> p \<noteq> x \<Longrightarrow> count_list (ws[i := p]) x = count_list ws x"
proof (induction ws arbitrary: i)
  case Nil
  then show ?case by simp
next
  case (Cons w ws)
  then show ?case by (cases i) auto
qed

lemma update_guard_not_Done: "update_guard st \<noteq> Done"
  by (simp add: update_guard_def)

text \<open>
  What a step does to the counter and to the number of ended workers: a claim
  increments the counter, and ends the worker exactly when the value exceeds \<open>N\<close>;
  every other step leaves both alone.
\<close>

lemma step_counter:
  assumes st: "step N ul i s = Some s'"
  shows "workers s ! i = At_fetch \<Longrightarrow> N <s COUNTER s \<Longrightarrow>
           COUNTER s' = COUNTER s + 1
           \<and> count_list (workers s') Done = Suc (count_list (workers s) Done)"
    and "workers s ! i = At_fetch \<Longrightarrow> \<not> N <s COUNTER s \<Longrightarrow>
           COUNTER s' = COUNTER s + 1
           \<and> count_list (workers s') Done = count_list (workers s) Done"
    and "workers s ! i \<noteq> At_fetch \<Longrightarrow>
           COUNTER s' = COUNTER s
           \<and> count_list (workers s') Done = count_list (workers s) Done"
proof -
  from step_SomeD [OF st] have i: "i < length (workers s)" and nd: "workers s ! i \<noteq> Done"
    by simp_all
  show "workers s ! i = At_fetch \<Longrightarrow> N <s COUNTER s \<Longrightarrow>
           COUNTER s' = COUNTER s + 1
           \<and> count_list (workers s') Done = Suc (count_list (workers s) Done)"
    using st i nd by (auto simp: step_def set_pc_def count_list_update_new)
  show "workers s ! i = At_fetch \<Longrightarrow> \<not> N <s COUNTER s \<Longrightarrow>
           COUNTER s' = COUNTER s + 1
           \<and> count_list (workers s') Done = count_list (workers s) Done"
    using st i nd
    by (auto simp: step_def set_pc_def Let_def count_list_update_other update_guard_not_Done)
  show "workers s ! i \<noteq> At_fetch \<Longrightarrow>
           COUNTER s' = COUNTER s
           \<and> count_list (workers s') Done = count_list (workers s) Done"
    using st i nd
    by (auto simp: step_def set_pc_def Let_def count_list_update_other update_guard_not_Done
        split: pc.splits option.splits if_splits)
qed

lemma counter_step:
  assumes N: "1 \<le> sint N" and st: "step N ul i s = Some s'"
    and c: "COUNTER s = of_nat (Suc c)"
    and b: "c \<le> nat (sint N) + count_list (workers s) Done"
    and e: "count_list (workers s) Done = 0 \<or> nat (sint N) + count_list (workers s) Done \<le> c"
    and l: "nat (sint N) + length (workers s) \<le> 2147483647"
  shows "\<exists>c'. c' = (if workers s ! i = At_fetch then Suc c else c)
    \<and> COUNTER s' = of_nat (Suc c')
    \<and> c' \<le> nat (sint N) + count_list (workers s') Done
    \<and> (count_list (workers s') Done = 0 \<or> nat (sint N) + count_list (workers s') Done \<le> c')"
proof (cases "workers s ! i = At_fetch")
  case False
  with step_counter(3) [OF st] c b e show ?thesis
    by simp
next
  case True
  from step_SomeD [OF st] have i: "i < length (workers s)" and nd: "workers s ! i \<noteq> Done"
    by simp_all
  from count_list_less_length [OF i nd] b l have "Suc c \<le> 2147483647"
    by simp
  then have "sint (COUNTER s) = int (Suc c)"
    unfolding c by (rule sint_of_nat32)
  with N have gt: "N <s COUNTER s \<longleftrightarrow> nat (sint N) \<le> c"
    by (simp add: word_sless_alt) linarith
  show ?thesis
  proof (cases "N <s COUNTER s")
    case yes: True
    with step_counter(1) [OF st True] gt c b e True show ?thesis
      by auto
  next
    case no: False
    with step_counter(2) [OF st True] gt c b e True show ?thesis
      by auto
  qed
qed

lemma counter_run:
  assumes N: "1 \<le> sint N"
  shows "run N ul sched s = Some s' \<Longrightarrow>
    COUNTER s = of_nat (Suc c) \<Longrightarrow>
    c \<le> nat (sint N) + count_list (workers s) Done \<Longrightarrow>
    count_list (workers s) Done = 0 \<or> nat (sint N) + count_list (workers s) Done \<le> c \<Longrightarrow>
    nat (sint N) + length (workers s) \<le> 2147483647 \<Longrightarrow>
    claims N ul sched s = map of_nat [Suc c ..< Suc c + length (claims N ul sched s)]
    \<and> c + length (claims N ul sched s) \<le> nat (sint N) + count_list (workers s') Done
    \<and> (count_list (workers s') Done = 0
        \<or> nat (sint N) + count_list (workers s') Done \<le> c + length (claims N ul sched s))"
proof (induction sched arbitrary: s c)
  case Nil
  then show ?case by simp
next
  case (Cons i sched)
  from Cons.prems(1) obtain t where st: "step N ul i s = Some t"
    and rest: "run N ul sched t = Some s'"
    by (auto split: option.splits)
  from counter_step [OF N st Cons.prems(2-5)]
  obtain c' where c': "c' = (if workers s ! i = At_fetch then Suc c else c)"
    and 1: "COUNTER t = of_nat (Suc c')"
    and 2: "c' \<le> nat (sint N) + count_list (workers t) Done"
    and 3: "count_list (workers t) Done = 0 \<or> nat (sint N) + count_list (workers t) Done \<le> c'"
    by blast
  have 4: "nat (sint N) + length (workers t) \<le> 2147483647"
    using step_SomeD(4) [OF st] Cons.prems(5) by simp
  note IH = Cons.IH [OF rest 1 2 3 4]
  show ?case
  proof (cases "workers s ! i = At_fetch")
    case True
    with c' have "c' = Suc c" by simp
    with IH st True Cons.prems(2) show ?thesis
      by (simp add: upt_conv_Cons del: upt_Suc of_nat_Suc)
  next
    case False
    with c' have "c' = c" by simp
    with IH st False show ?thesis
      by simp
  qed
qed


lemma of_nat32_inj:
  assumes "a < 4294967296" and "b < 4294967296" and "(of_nat a :: int32) = of_nat b"
  shows "a = b"
proof -
  from assms(3) have "unat (of_nat a :: int32) = unat (of_nat b :: int32)"
    by simp
  with assms(1,2) show ?thesis
    by (simp add: unat_of_nat)
qed

lemma count_list_distinct:
  "distinct xs \<Longrightarrow> x \<in> set xs \<Longrightarrow> count_list xs x = 1"
  by (induction xs) auto

lemma count_list_all:
  "list_all (\<lambda>p. p = x) ws \<Longrightarrow> count_list ws x = length ws"
  by (induction ws) auto

lemma all_done_count:
  "all_done s \<Longrightarrow> count_list (workers s) Done = length (workers s)"
  unfolding all_done_def by (rule count_list_all)

text \<open>
  C4: with \<open>N \<ge> 1\<close>, \<open>T \<ge> 1\<close> and \<open>N + T \<le> 2147483647\<close>, under every schedule the claims
  return 1, 2, 3, ... in the order in which they are made, so no value is returned twice;
  and when all workers have ended, the values returned are exactly 1, ..., \<open>N + T\<close>, so
  that every value of the range 1, ..., \<open>N\<close> has been returned by exactly one claim.
\<close>

theorem claims_unique_and_complete:
  assumes N: "1 \<le> sint N" and T: "1 \<le> sint T" and NT: "sint N + sint T \<le> 2147483647"
    and r: "run N ul sched (init T) = Some s"
  shows "distinct (claims N ul sched (init T))
     \<and> (\<forall>k < length (claims N ul sched (init T)).
           claims N ul sched (init T) ! k = of_nat (Suc k))
     \<and> (all_done s \<longrightarrow>
           claims N ul sched (init T) = map of_nat [1 ..< Suc (nat (sint N) + nat (sint T))]
           \<and> (\<forall>v. 1 \<le>s v \<and> v \<le>s N \<longrightarrow> count_list (claims N ul sched (init T)) v = 1))"
proof -
  define cl where "cl = claims N ul sched (init T)"
  define n where "n = nat (sint N)"
  define d where "d = count_list (workers s) Done"
  have len: "length (workers s) = nat (sint T)"
    using run_length_workers [OF r] by (simp add: init_def)
  have "COUNTER (init T) = of_nat (Suc 0)"
    and "0 \<le> nat (sint N) + count_list (workers (init T)) Done"
    and "count_list (workers (init T)) Done = 0
       \<or> nat (sint N) + count_list (workers (init T)) Done \<le> 0"
    and "nat (sint N) + length (workers (init T)) \<le> 2147483647"
    using N T NT by (simp_all add: init_def)
  from counter_run [OF N r this]
  have cl: "cl = map of_nat [Suc 0 ..< Suc (length cl)]"
    and up: "length cl \<le> n + d" and low: "d = 0 \<or> n + d \<le> length cl"
    by (simp_all add: cl_def n_def d_def)
  have "d \<le> length (workers s)"
    unfolding d_def by (rule count_le_length)
  with up len N T NT have small: "length cl \<le> 2147483647"
    by (simp add: n_def)
  have "inj_on (of_nat :: nat \<Rightarrow> int32) (set [Suc 0 ..< Suc (length cl)])"
  proof (rule inj_onI)
    fix a b
    assume "a \<in> set [Suc 0 ..< Suc (length cl)]" and "b \<in> set [Suc 0 ..< Suc (length cl)]"
    with small have "a < 4294967296" and "b < 4294967296"
      by (simp_all del: upt_Suc)
    moreover assume "(of_nat a :: int32) = of_nat b"
    ultimately show "a = b"
      by (rule of_nat32_inj)
  qed
  then have "distinct (map (of_nat :: nat \<Rightarrow> int32) [Suc 0 ..< Suc (length cl)])"
    by (simp add: distinct_map)
  with cl have dist: "distinct cl"
    by simp
  have nth: "\<forall>k < length cl. cl ! k = of_nat (Suc k)"
  proof (intro allI impI)
    fix k
    assume k: "k < length cl"
    then have "map (of_nat :: nat \<Rightarrow> int32) [Suc 0 ..< Suc (length cl)] ! k = of_nat (Suc k)"
      by (simp del: upt_Suc of_nat_Suc)
    with cl show "cl ! k = of_nat (Suc k)"
      by simp
  qed
  have fin: "cl = map of_nat [1 ..< Suc (n + nat (sint T))]
      \<and> (\<forall>v. 1 \<le>s v \<and> v \<le>s N \<longrightarrow> count_list cl v = 1)" if ad: "all_done s"
  proof -
    from all_done_count [OF ad] len have "d = nat (sint T)"
      by (simp add: d_def)
    with up low T have L: "length cl = n + nat (sint T)"
      by auto
    with cl have full: "cl = map of_nat [1 ..< Suc (n + nat (sint T))]"
      by simp
    have "count_list cl v = 1" if v: "1 \<le>s v \<and> v \<le>s N" for v
    proof -
      from v have 1: "1 \<le> sint v" and 2: "sint v \<le> sint N"
        by (simp_all add: word_sle_eq)
      have "v = word_of_int (sint v)"
        by simp
      also have "\<dots> = of_nat (nat (sint v))"
        using 1 by (simp del: of_int_sint)
      finally have "v = of_nat (nat (sint v))" .
      moreover have "nat (sint v) \<in> set [1 ..< Suc (n + nat (sint T))]"
        using 1 2 by (simp add: n_def) linarith
      ultimately have "v \<in> set cl"
        using full by (metis image_eqI set_map)
      with dist show ?thesis
        by (rule count_list_distinct)
    qed
    with full show ?thesis
      by blast
  qed
  from dist nth fin show ?thesis
    unfolding cl_def n_def by blast
qed

theorem claims_unique_and_complete_witness:
  "1 \<le> sint (3 :: int32) \<and> 1 \<le> sint (2 :: int32) \<and> sint (3 :: int32) + sint (2 :: int32) \<le> 2147483647
   \<and> run 3 True [0, 1, 0, 0, 1, 1, 0, 1, 0, 1, 0, 0, 0, 0, 0, 1, 0] (init 2)
       = Some \<lparr>COUNTER = 6, histogram = (replicate 1001 0)[0 := 1, 1 := 1, 7 := 1],
               mtx = None, workers = [Done, Done]\<rparr>
   \<and> all_done \<lparr>COUNTER = 6, histogram = (replicate 1001 0)[0 := 1, 1 := 1, 7 := 1],
               mtx = None, workers = [Done, Done]\<rparr>
   \<and> claims 3 True [0, 1, 0, 0, 1, 1, 0, 1, 0, 1, 0, 0, 0, 0, 0, 1, 0] (init 2) = [1, 2, 3, 4, 5]
   \<and> (1 :: int32) \<le>s 2 \<and> (2 :: int32) \<le>s 3
   \<and> count_list (claims 3 True [0, 1, 0, 0, 1, 1, 0, 1, 0, 1, 0, 0, 0, 0, 0, 1, 0] (init 2)) 2 = 1"
proof -
  define F where "F = \<lparr>COUNTER = 6 :: int32,
    histogram = (replicate 1001 (0 :: int32))[0 := 1, 1 := 1, 7 := 1],
    mtx = None :: nat option, workers = [Done, Done]\<rparr>"
  define sched :: "nat list" where "sched = [0, 1, 0, 0, 1, 1, 0, 1, 0, 1, 0, 0, 0, 0, 0, 1, 0]"
  have h: "1 \<le> sint (3 :: int32)" "1 \<le> sint (2 :: int32)"
    "sint (3 :: int32) + sint (2 :: int32) \<le> 2147483647"
    by simp_all
  have r: "run 3 True sched (init 2) = Some F"
    unfolding F_def sched_def by code_simp
  have d: "all_done F"
    by (simp add: all_done_def F_def)
  have v: "(1 :: int32) \<le>s 2 \<and> (2 :: int32) \<le>s 3"
    by (simp add: word_sle_eq)
  have c: "claims 3 True sched (init 2) = [1, 2, 3, 4, 5]"
    unfolding sched_def by code_simp
  from claims_unique_and_complete [OF h r] d v
  have "count_list (claims 3 True sched (init 2)) 2 = 1"
    by blast
  with h r d c v show ?thesis
    unfolding F_def sched_def by blast
qed

section \<open>A worker running alone, and the counter wrapping around\<close>

lemma solo_item:
  assumes i: "i < length (workers s)" and f: "workers s ! i = At_fetch"
    and m: "mtx s = None" and h: "length (histogram s) = 1001"
    and le: "\<not> N <s COUNTER s"
  shows "\<exists>s'. run N True [i, i, i, i, i] s = Some s' \<and> workers s' = workers s
           \<and> mtx s' = None \<and> length (histogram s') = 1001
           \<and> COUNTER s' = COUNTER s + 1"
    and "claims N True [i, i, i, i, i] s = [COUNTER s]"
proof -
  define st where "st = compute_stopping_time (COUNTER s)"
  have "0 \<le> sint st \<and> sint st \<le> 1000"
    unfolding st_def compute_stopping_time_def by (rule loop_bounds) simp_all
  then have g: "update_guard st = At_load st" and b: "in_bounds (histogram s) st"
    using h by (auto simp: update_guard_def in_bounds_def word_sle_eq)
  have same: "(workers s)[i := At_fetch] = workers s"
    using i f by (simp add: list_update_same_conv)
  show "\<exists>s'. run N True [i, i, i, i, i] s = Some s' \<and> workers s' = workers s
           \<and> mtx s' = None \<and> length (histogram s') = 1001
           \<and> COUNTER s' = COUNTER s + 1"
    using i f m h le g b same
    by (simp add: step_def set_pc_def st_def [symmetric])
  show "claims N True [i, i, i, i, i] s = [COUNTER s]"
    using i f m h le g b same
    by (simp add: step_def set_pc_def st_def [symmetric])
qed


lemma solo_run:
  "i < length (workers s) \<Longrightarrow> workers s ! i = At_fetch \<Longrightarrow> mtx s = None \<Longrightarrow>
   length (histogram s) = 1001 \<Longrightarrow> \<forall>j < m. \<not> N <s COUNTER s + of_nat j \<Longrightarrow>
   \<exists>s'. run N True (concat (replicate m [i, i, i, i, i])) s = Some s'
      \<and> workers s' = workers s \<and> mtx s' = None \<and> length (histogram s') = 1001
      \<and> COUNTER s' = COUNTER s + of_nat m
      \<and> claims N True (concat (replicate m [i, i, i, i, i])) s
          = map (\<lambda>j. COUNTER s + of_nat j) [0 ..< m]"
proof (induction m arbitrary: s)
  case 0
  then show ?case by simp
next
  case (Suc m)
  from Suc.prems(5) have first: "\<not> N <s COUNTER s"
    by force
  from solo_item [OF Suc.prems(1-4) first]
  obtain t where t: "run N True [i, i, i, i, i] s = Some t" and wt: "workers t = workers s"
    and mt: "mtx t = None" and ht: "length (histogram t) = 1001"
    and ct: "COUNTER t = COUNTER s + 1"
    and cl: "claims N True [i, i, i, i, i] s = [COUNTER s]"
    by blast
  have shift: "COUNTER s + of_nat (Suc j) = COUNTER t + of_nat j" for j
    by (simp add: ct ac_simps)
  have later: "\<forall>j < m. \<not> N <s COUNTER t + of_nat j"
  proof (intro allI impI)
    fix j
    assume "j < m"
    then have "\<not> N <s COUNTER s + of_nat (Suc j)"
      using Suc.prems(5) by (meson Suc_less_eq)
    then show "\<not> N <s COUNTER t + of_nat j"
      unfolding shift .
  qed
  from Suc.IH [of t, OF _ _ mt ht later] Suc.prems(1,2) wt
  obtain s' where s': "run N True (concat (replicate m [i, i, i, i, i])) t = Some s'"
    and 1: "workers s' = workers s" "mtx s' = None" "length (histogram s') = 1001"
    and 2: "COUNTER s' = COUNTER t + of_nat m"
    and 3: "claims N True (concat (replicate m [i, i, i, i, i])) t
          = map (\<lambda>j. COUNTER t + of_nat j) [0 ..< m]"
    by auto
  have split: "concat (replicate (Suc m) [i, i, i, i, i])
      = [i, i, i, i, i] @ concat (replicate m [i, i, i, i, i])"
    by simp
  have r: "run N True (concat (replicate (Suc m) [i, i, i, i, i])) s = Some s'"
    unfolding split run_append t using s' by simp
  have "map (\<lambda>j. COUNTER s + of_nat j) [0 ..< Suc m]
      = COUNTER s # map (\<lambda>j. COUNTER s + of_nat (Suc j)) [0 ..< m]"
    by (simp add: upt_conv_Cons map_Suc_upt [symmetric] del: upt_Suc of_nat_Suc)
  also have "\<dots> = COUNTER s # map (\<lambda>j. COUNTER t + of_nat j) [0 ..< m]"
    unfolding shift ..
  finally have c: "claims N True (concat (replicate (Suc m) [i, i, i, i, i])) s
      = map (\<lambda>j. COUNTER s + of_nat j) [0 ..< Suc m]"
    unfolding split claims_append [OF t] cl 3 by simp
  have "COUNTER s' = COUNTER s + of_nat (Suc m)"
    unfolding shift by (rule 2)
  with r 1 c show ?case
    by blast
qed

lemma top_only:
  fixes x :: int32
  shows "2147483646 <s x \<longleftrightarrow> x = 2147483647"
proof
  assume "2147483646 <s x"
  then have "2147483646 < sint x"
    by (simp add: word_sless_alt)
  moreover have "sint x < 2 ^ 31"
    using sint_lt [of x] by simp
  ultimately have "sint x = sint (2147483647 :: int32)"
    by simp
  then show "x = 2147483647"
    by (rule signed_word_eqI)
next
  assume "x = 2147483647"
  then show "2147483646 <s x"
    by (simp add: word_sless_alt)
qed


lemma wrapped_run:
  fixes m1 m3 :: nat
  assumes m1: "m1 = 2147483646" and m3: "m3 = 4294967295"
  shows "map_option all_done
       (run 2147483646 True
          (concat (replicate m1 [0, 0, 0, 0, 0]) @ [0]
           @ concat (replicate m3 [1, 1, 1, 1, 1]) @ [1]) (init 2)) = Some True
     \<and> 2 \<le> count_list
         (claims 2147483646 True
           (concat (replicate m1 [0, 0, 0, 0, 0]) @ [0]
            @ concat (replicate m3 [1, 1, 1, 1, 1]) @ [1]) (init 2)) 1"
proof -
  define N :: int32 where "N = 2147483646"
  define S1 :: "nat list" where "S1 = concat (replicate m1 [0, 0, 0, 0, 0])"
  define S3 :: "nat list" where "S3 = concat (replicate m3 [1, 1, 1, 1, 1])"
  have top: "N <s x \<longleftrightarrow> x = 2147483647" for x
    unfolding N_def by (rule top_only)
  \<comment> \<open>worker 0 alone over 1, ..., 2147483646\<close>
  have w0: "workers (init 2) = [At_fetch, At_fetch]" and c0: "COUNTER (init 2) = 1"
    and "mtx (init 2) = None" and "length (histogram (init 2)) = 1001"
    by (simp_all add: init_def numeral_2_eq_2)
  moreover have "\<forall>j < m1. \<not> N <s COUNTER (init 2) + of_nat j"
  proof (intro allI impI)
    fix j
    assume j: "j < m1"
    show "\<not> N <s COUNTER (init 2) + of_nat j"
    proof
      assume "N <s COUNTER (init 2) + of_nat j"
      then have "(of_nat (Suc j) :: int32) = of_nat 2147483647"
        by (simp add: top c0)
      moreover have "Suc j < 4294967296"
        using j m1 by simp
      ultimately have "Suc j = 2147483647"
        by (intro of_nat32_inj) simp_all
      with j m1 show False
        by simp
    qed
  qed
  ultimately obtain s1 where r1: "run N True S1 (init 2) = Some s1"
    and w1: "workers s1 = [At_fetch, At_fetch]" and x1: "mtx s1 = None"
    and h1: "length (histogram s1) = 1001"
    and c1: "COUNTER s1 = 1 + of_nat m1"
    and l1: "claims N True S1 (init 2) = map (\<lambda>j. 1 + of_nat j) [0 ..< m1]"
    using solo_run [of 0 "init 2" m1 N] unfolding S1_def by auto
  \<comment> \<open>its next claim returns 2147483647 and ends it; the counter wraps\<close>
  have c1': "COUNTER s1 = 2147483647"
    unfolding c1 m1 by simp
  define s2 where "s2 = set_pc 0 Done (s1\<lparr>COUNTER := COUNTER s1 + 1\<rparr>)"
  have r2: "run N True [0] s1 = Some s2"
    using w1 c1' by (simp add: step_def s2_def top)
  have w2: "workers s2 = [Done, At_fetch]" and x2: "mtx s2 = None"
    and h2: "length (histogram s2) = 1001" and c2: "COUNTER s2 = 2147483648"
    using w1 x1 h1 c1' by (simp_all add: s2_def set_pc_def)
  \<comment> \<open>worker 1 alone over -2147483648, ..., 2147483646\<close>
  have "\<forall>j < m3. \<not> N <s COUNTER s2 + of_nat j"
  proof (intro allI impI)
    fix j
    assume j: "j < m3"
    show "\<not> N <s COUNTER s2 + of_nat j"
    proof
      assume "N <s COUNTER s2 + of_nat j"
      then have "2147483648 + (of_nat j :: int32) = 2147483647"
        by (simp add: top c2)
      then have "(of_nat j :: int32) = 2147483647 - 2147483648"
        by (metis add_diff_cancel_left')
      then have "(of_nat j :: int32) = of_nat 4294967295"
        by simp
      moreover have "j < 4294967296"
        using j m3 by simp
      ultimately have "j = 4294967295"
        by (intro of_nat32_inj) simp_all
      with j m3 show False
        by simp
    qed
  qed
  with w2 x2 h2 obtain s3 where r3: "run N True S3 s2 = Some s3"
    and w3: "workers s3 = [Done, At_fetch]" and x3: "mtx s3 = None"
    and h3: "length (histogram s3) = 1001"
    and c3: "COUNTER s3 = COUNTER s2 + of_nat m3"
    and l3: "claims N True S3 s2 = map (\<lambda>j. COUNTER s2 + of_nat j) [0 ..< m3]"
    using solo_run [of 1 s2 m3 N] unfolding S3_def by auto
  have c3': "COUNTER s3 = 2147483647"
    unfolding c3 c2 m3 by simp
  define s4 where "s4 = set_pc 1 Done (s3\<lparr>COUNTER := COUNTER s3 + 1\<rparr>)"
  have r4: "run N True [1] s3 = Some s4"
    using w3 c3' by (simp add: step_def s4_def top)
  have w4: "workers s4 = [Done, Done]"
    using w3 by (simp add: s4_def set_pc_def)
  \<comment> \<open>the whole run\<close>
  have r: "run N True (S1 @ [0] @ S3 @ [1]) (init 2) = Some s4"
    by (simp only: run_append r1 r2 r3 r4 option.case)
  have ad: "all_done s4"
    by (simp add: all_done_def w4)
  \<comment> \<open>the value 1 is claimed in the first and in the third part\<close>
  have "(1 :: int32) = 1 + of_nat 0" and "0 < m1"
    using m1 by simp_all
  then have "1 \<in> (\<lambda>j. 1 + of_nat j :: int32) ` {0 ..< m1}"
    by (metis atLeastLessThan_iff image_eqI le_refl)
  then have "1 \<in> set (claims N True S1 (init 2))"
    unfolding l1 by simp
  then have a: "1 \<le> count_list (claims N True S1 (init 2)) 1"
    using count_list_0_iff [of "claims N True S1 (init 2)" 1] by simp
  have "(1 :: int32) = COUNTER s2 + of_nat 2147483649" and "2147483649 < m3"
    using m3 c2 by simp_all
  then have "1 \<in> (\<lambda>j. COUNTER s2 + of_nat j) ` {0 ..< m3}"
    by (metis atLeastLessThan_iff image_eqI le0)
  then have "1 \<in> set (claims N True S3 s2)"
    unfolding l3 by simp
  then have b: "1 \<le> count_list (claims N True S3 s2) 1"
    using count_list_0_iff [of "claims N True S3 s2" 1] by simp
  have "claims N True (S1 @ [0] @ S3 @ [1]) (init 2)
      = claims N True S1 (init 2) @ claims N True [0] s1
        @ claims N True S3 s2 @ claims N True [1] s3"
    by (simp only: claims_append [OF r1] claims_append [OF r2] claims_append [OF r3])
  with a b have "2 \<le> count_list (claims N True (S1 @ [0] @ S3 @ [1]) (init 2)) 1"
    by simp
  with r ad show ?thesis
    unfolding N_def S1_def S3_def by simp
qed

text \<open>
  Without the bound on \<open>N + T\<close> the statement fails. With \<open>N = 2147483646\<close> and two
  workers, the first may process the whole range and end on the claim of 2147483647; the
  counter then wraps to -2147483648, every value up to \<open>N\<close> is at most \<open>N\<close>, and the second
  worker processes all of them, the range 1, ..., \<open>N\<close> a second time, before it ends too.
\<close>

theorem duplicate_claims_counterexample:
  "map_option all_done
       (run 2147483646 True
          (concat (replicate 2147483646 [0, 0, 0, 0, 0]) @ [0]
           @ concat (replicate 4294967295 [1, 1, 1, 1, 1]) @ [1]) (init 2)) = Some True
     \<and> 2 \<le> count_list
         (claims 2147483646 True
           (concat (replicate 2147483646 [0, 0, 0, 0, 0]) @ [0]
            @ concat (replicate 4294967295 [1, 1, 1, 1, 1]) @ [1]) (init 2)) 1"
  by (rule wrapped_run [OF refl refl])

end
